theory Spec2Isabelle
  imports Main "HOL-Library.Word"
begin

unbundle bit_operations_syntax

section \<open>WIPC: frame codec and stream demultiplexer\<close>

text \<open>
  The repository holds two parallel implementations of the WIPC wire format:
  \<^item> the AssemblyScript guest library (\<^verbatim>\<open>src/assembly/index.ts\<close>) with the pure
    functions \<^verbatim>\<open>encode\<close> and \<^verbatim>\<open>decode\<close>;
  \<^item> the Node.js host class \<^verbatim>\<open>Channel\<close> with \<^verbatim>\<open>send\<close>, \<^verbatim>\<open>onData\<close> and
    \<^verbatim>\<open>handleFrame\<close>.
  Both are embedded below. Byte buffers are lists of 8-bit words.
\<close>

type_synonym byte = "8 word"
type_synonym bytes = "byte list"
type_synonym u32 = "32 word"

text \<open>
  Everything the two implementations can throw: \<^verbatim>\<open>new Error(`Unknown frame type: ...`)\<close>
  in \<^verbatim>\<open>handleFrame\<close>, the \<^verbatim>\<open>SyntaxError\<close> of \<^verbatim>\<open>JSON.parse\<close>, the
  \<^verbatim>\<open>RangeError\<close> of an out-of-range length (\<^verbatim>\<open>writeUInt32LE\<close> in Node.js, a typed-array
  constructor called with a negative length in AssemblyScript), and the abort of an
  AssemblyScript allocation that is too large.
\<close>

datatype error = UnknownFrameType byte | SyntaxError | RangeError | AllocationTooLarge

subsection \<open>The AssemblyScript codec\<close>

text \<open>An AssemblyScript enum is an \<^verbatim>\<open>i32\<close>; only its four named values are listed.\<close>

type_synonym MessageType = "32 word"

definition OPEN :: MessageType where "OPEN = 0x00"
definition CLOSE :: MessageType where "CLOSE = 0x01"
definition CALL :: MessageType where "CALL = 0x02"
definition DATA :: MessageType where "DATA = 0x03"

definition MAGIC_W :: byte where "MAGIC_W = 0x57"
definition MAGIC_I :: byte where "MAGIC_I = 0x49"
definition MAGIC_P :: byte where "MAGIC_P = 0x50"
definition MAGIC_C :: byte where "MAGIC_C = 0x43"
definition HEADER_SIZE :: u32 where "HEADER_SIZE = 9"

record Frame =
  type :: MessageType
  payload :: bytes

text \<open>
  \<^verbatim>\<open>store<u8>(base, v, off)\<close>, \<^verbatim>\<open>store<u32>(base, v, off)\<close> (WebAssembly memory is
  little-endian), \<^verbatim>\<open>load<u8>\<close>, \<^verbatim>\<open>load<u32>\<close> and \<^verbatim>\<open>memory.copy\<close>, on a buffer held
  as a list. The callers below only use them inside the buffer's bounds.
\<close>

definition store_u8 :: "bytes \<Rightarrow> byte \<Rightarrow> nat \<Rightarrow> bytes" where
  "store_u8 buf v off = buf[off := v]"

definition store_u32 :: "bytes \<Rightarrow> u32 \<Rightarrow> nat \<Rightarrow> bytes" where
  "store_u32 buf v off =
     buf[off := ucast v,
         off + 1 := ucast (drop_bit 8 v),
         off + 2 := ucast (drop_bit 16 v),
         off + 3 := ucast (drop_bit 24 v)]"

definition load_u8 :: "bytes \<Rightarrow> nat \<Rightarrow> byte" where
  "load_u8 buf off = buf ! off"

definition load_u32 :: "bytes \<Rightarrow> nat \<Rightarrow> u32" where
  "load_u32 buf off =
     ucast (buf ! off)
     OR push_bit 8 (ucast (buf ! (off + 1)))
     OR push_bit 16 (ucast (buf ! (off + 2)))
     OR push_bit 24 (ucast (buf ! (off + 3)))"

definition memory_copy :: "bytes \<Rightarrow> nat \<Rightarrow> bytes \<Rightarrow> nat \<Rightarrow> nat \<Rightarrow> bytes" where
  "memory_copy dst doff src soff n =
     take doff dst @ take n (drop soff src) @ drop (doff + n) dst"

text \<open>
  \<^verbatim>\<open>new ArrayBuffer(length)\<close>. The AssemblyScript runtime allocates no buffer longer than
  1073741803 bytes (a constant of the language's runtime, not of this repository) and
  aborts on a longer one; the lengths of the typed arrays a program holds obey the same
  limit.
\<close>

definition MAX_BYTE_LENGTH :: nat where
  "MAX_BYTE_LENGTH = 1073741803"

definition new_ArrayBuffer :: "nat \<Rightarrow> error + bytes" where
  "new_ArrayBuffer n =
     (if n > MAX_BYTE_LENGTH then Inl AllocationTooLarge else Inr (replicate n (0 :: byte)))"

text \<open>
  \<^verbatim>\<open>encode(type, payload)\<close>: a zero-filled buffer of \<^verbatim>\<open>HEADER_SIZE + payloadLen\<close> bytes,
  the four magic bytes, \<^verbatim>\<open><u8>type\<close>, \<^verbatim>\<open><u32>payloadLen\<close>, then the payload.
  \<^verbatim>\<open>payload\<close> is \<^verbatim>\<open>Uint8Array | null\<close>, here an option. Where the allocation of the
  buffer aborts, so does \<^verbatim>\<open>encode\<close>.
\<close>

definition encode :: "MessageType \<Rightarrow> bytes option \<Rightarrow> error + bytes" where
  "encode ty pl =
     (let payloadLen = (case pl of None \<Rightarrow> 0 | Some p \<Rightarrow> length p)
      in case new_ArrayBuffer (unat HEADER_SIZE + payloadLen) of
           Inl e \<Rightarrow> Inl e
         | Inr buf0 \<Rightarrow>
             let buf1 = store_u8 buf0 MAGIC_W 0;
                 buf2 = store_u8 buf1 MAGIC_I 1;
                 buf3 = store_u8 buf2 MAGIC_P 2;
                 buf4 = store_u8 buf3 MAGIC_C 3;
                 buf5 = store_u8 buf4 (ucast ty) 4;
                 buf6 = store_u32 buf5 (of_nat payloadLen) 5
             in case pl of
                  None \<Rightarrow> Inr buf6
                | Some p \<Rightarrow>
                    if payloadLen > 0
                    then Inr (memory_copy buf6 (unat HEADER_SIZE) p 0 payloadLen)
                    else Inr buf6)"

text \<open>
  \<^verbatim>\<open>decode(data)\<close> returns \<^verbatim>\<open>Frame | null\<close>; \<^verbatim>\<open>null\<close> is \<open>None\<close>. The two length
  tests compare \<^verbatim>\<open>u32\<close> values, and \<^verbatim>\<open>HEADER_SIZE + len\<close> is a \<^verbatim>\<open>u32\<close> addition, which
  wraps. \<^verbatim>\<open>new Uint8Array(<i32>len)\<close> throws a \<^verbatim>\<open>RangeError\<close> when the cast length is
  negative. Past the two length tests the payload is shorter than \<^verbatim>\<open>data\<close>, a buffer
  that exists.
\<close>

definition decode :: "bytes \<Rightarrow> error + Frame option" where
  "decode data =
     (if (of_nat (length data) :: u32) < HEADER_SIZE then Inr None
      else if load_u8 data 0 \<noteq> MAGIC_W \<or> load_u8 data 1 \<noteq> MAGIC_I
              \<or> load_u8 data 2 \<noteq> MAGIC_P \<or> load_u8 data 3 \<noteq> MAGIC_C
        then Inr None
      else
        let ty = (ucast (load_u8 data 4) :: MessageType);
            len = load_u32 data 5
        in if (of_nat (length data) :: u32) < HEADER_SIZE + len then Inr None
           else if sint len < 0 then Inl RangeError
           else
             let payload0 = replicate (unat len) (0 :: byte);
                 payload1 = (if len > 0
                             then memory_copy payload0 0 data (unat HEADER_SIZE) (unat len)
                             else payload0)
             in Inr (Some \<lparr>type = ty, payload = payload1\<rparr>))"

subsection \<open>The Node.js channel\<close>

text \<open>
  \<^verbatim>\<open>Channel.MAGIC = Buffer.from("WIPC")\<close> and \<^verbatim>\<open>Channel.HEADER_SIZE = 9\<close>. JavaScript
  numbers do not wrap at 32 bits, so lengths and offsets are natural numbers here;
  Node.js's own limit on the size of a Buffer is not part of the model. The
  type of a frame on the wire is one byte (\<^verbatim>\<open>readUInt8\<close>, \<^verbatim>\<open>writeUInt8\<close>); the enum
  \<^verbatim>\<open>MessageType\<close> names four of its values.
\<close>

definition Channel_MAGIC :: bytes where
  "Channel_MAGIC = [0x57, 0x49, 0x50, 0x43]"

definition Channel_HEADER_SIZE :: nat where
  "Channel_HEADER_SIZE = 9"

definition MessageType_OPEN :: byte where "MessageType_OPEN = 0x00"
definition MessageType_CLOSE :: byte where "MessageType_CLOSE = 0x01"
definition MessageType_CALL :: byte where "MessageType_CALL = 0x02"
definition MessageType_DATA :: byte where "MessageType_DATA = 0x03"

text \<open>
  The Buffer methods the class uses. \<^verbatim>\<open>subarray(start, end)\<close> clamps both indices to the
  buffer; \<^verbatim>\<open>indexOf(value)\<close> is the first offset at which \<^verbatim>\<open>value\<close> occurs, \<open>None\<close>
  standing for \<^verbatim>\<open>-1\<close>; \<^verbatim>\<open>readUInt32LE\<close> and \<^verbatim>\<open>writeUInt32LE\<close> are little-endian.
  \<^verbatim>\<open>writeUInt32LE\<close> throws a \<^verbatim>\<open>RangeError\<close> for a value above \<open>2^32 - 1\<close>; the reads
  are only used inside the buffer's bounds.
\<close>

definition subarray :: "bytes \<Rightarrow> nat \<Rightarrow> nat \<Rightarrow> bytes" where
  "subarray buf start end = drop start (take end buf)"

fun indexOf :: "bytes \<Rightarrow> bytes \<Rightarrow> nat option" where
  "indexOf [] v = (if v = [] then Some 0 else None)"
| "indexOf (b # bs) v =
     (if take (length v) (b # bs) = v then Some 0
      else map_option Suc (indexOf bs v))"

definition readUInt8 :: "bytes \<Rightarrow> nat \<Rightarrow> byte" where
  "readUInt8 buf off = buf ! off"

definition readUInt32LE :: "bytes \<Rightarrow> nat \<Rightarrow> nat" where
  "readUInt32LE buf off =
     unat (buf ! off)
     + unat (buf ! (off + 1)) * 2 ^ 8
     + unat (buf ! (off + 2)) * 2 ^ 16
     + unat (buf ! (off + 3)) * 2 ^ 24"

definition writeUInt8 :: "bytes \<Rightarrow> byte \<Rightarrow> nat \<Rightarrow> bytes" where
  "writeUInt8 buf v off = buf[off := v]"

definition writeUInt32LE :: "bytes \<Rightarrow> nat \<Rightarrow> nat \<Rightarrow> error + bytes" where
  "writeUInt32LE buf v off =
     (if v > 0xFFFFFFFF then Inl RangeError
      else Inr (buf[off := of_nat v,
                    off + 1 := of_nat (v div 2 ^ 8),
                    off + 2 := of_nat (v div 2 ^ 16),
                    off + 3 := of_nat (v div 2 ^ 24)]))"

definition copy :: "bytes \<Rightarrow> bytes \<Rightarrow> nat \<Rightarrow> bytes" where
  "copy src target targetStart =
     take targetStart target
     @ take (length target - targetStart) src
     @ drop (targetStart + length src) target"

text \<open>
  The object state is the private field \<^verbatim>\<open>buffer\<close>; the two streams are the
  environment. \<^verbatim>\<open>send\<close> returns the bytes it hands to \<^verbatim>\<open>output.write\<close>.
\<close>

record Channel =
  buffer :: bytes

definition new_Channel :: Channel where
  "new_Channel = \<lparr>buffer = []\<rparr>"

definition send :: "byte \<Rightarrow> bytes option \<Rightarrow> error + bytes" where
  "send ty pl =
     (let body = (case pl of None \<Rightarrow> [] | Some p \<Rightarrow> p);
          header0 = replicate Channel_HEADER_SIZE (0 :: byte);
          header1 = copy Channel_MAGIC header0 0;
          header2 = writeUInt8 header1 ty 4
      in case writeUInt32LE header2 (length body) 5 of
           Inl e \<Rightarrow> Inl e
         | Inr header3 \<Rightarrow> Inr (header3 @ body))"

text \<open>
  The protected methods a subclass overrides, as the record of what was invoked.
  \<^verbatim>\<open>handleFrame\<close> either invokes one of them or throws; \<^verbatim>\<open>JSON.parse\<close> of the payload
  text is the parameter \<open>parse\<close>, \<open>None\<close> where it throws its \<^verbatim>\<open>SyntaxError\<close>.
\<close>

datatype 'j callback = OnOpen | OnClose | OnCall 'j | OnDataMessage bytes

definition handleFrame :: "(bytes \<Rightarrow> 'j option) \<Rightarrow> byte \<Rightarrow> bytes \<Rightarrow> error + 'j callback" where
  "handleFrame parse ty pl =
     (if ty = MessageType_OPEN then Inr OnOpen
      else if ty = MessageType_CLOSE then Inr OnClose
      else if ty = MessageType_CALL then
        (case parse pl of None \<Rightarrow> Inl SyntaxError | Some msg \<Rightarrow> Inr (OnCall msg))
      else if ty = MessageType_DATA then Inr (OnDataMessage pl)
      else Inl (UnknownFrameType ty))"

text \<open>
  \<^verbatim>\<open>onData\<close> appends the chunk and runs its \<^verbatim>\<open>while (true)\<close> loop. The loop's result is
  the buffer it leaves, the calls it made in order (\<^verbatim>\<open>this.onPassthrough(data)\<close> and
  \<^verbatim>\<open>this.handleFrame(type, payload)\<close>), and the error with which the last
  \<^verbatim>\<open>handleFrame\<close> call threw, if it did: the exception leaves \<^verbatim>\<open>onData\<close> after the
  buffer has been advanced past the frame.
\<close>

datatype call = OnPassthrough bytes | HandleFrame byte bytes

function onData_loop :: "(bytes \<Rightarrow> 'j option) \<Rightarrow> bytes \<Rightarrow> bytes \<times> call list \<times> error option" where
  "onData_loop parse buf =
     (if length buf = 0 then (buf, [], None)
      else case indexOf buf Channel_MAGIC of
        None \<Rightarrow> ([], [OnPassthrough buf], None)
      | Some idx \<Rightarrow>
          let pre = (if idx > 0 then [OnPassthrough (subarray buf 0 idx)] else []);
              buf1 = (if idx > 0 then subarray buf idx (length buf) else buf)
          in if length buf1 < Channel_HEADER_SIZE then (buf1, pre, None)
             else
               let ty = readUInt8 buf1 4;
                   len = readUInt32LE buf1 5;
                   frameSize = Channel_HEADER_SIZE + len
               in if length buf1 < frameSize then (buf1, pre, None)
                  else
                    let pl = subarray buf1 Channel_HEADER_SIZE frameSize;
                        buf2 = subarray buf1 frameSize (length buf1)
                    in case handleFrame parse ty pl of
                         Inl e \<Rightarrow> (buf2, pre @ [HandleFrame ty pl], Some e)
                       | Inr cb \<Rightarrow>
                           (case onData_loop parse buf2 of
                              (b, calls, err) \<Rightarrow> (b, pre @ HandleFrame ty pl # calls, err)))"
  by pat_completeness auto
termination
proof (relation "measure (\<lambda>(parse, buf). length buf)")
  show "wf (measure (\<lambda>(parse, buf). length buf))" by simp
next
  fix parse :: "bytes \<Rightarrow> 'j option" and buf :: bytes and idx pre buf1 ty len frameSize pl buf2 cb
  assume "buf1 = (if 0 < idx then subarray buf idx (length buf) else buf)"
    and "\<not> length buf1 < Channel_HEADER_SIZE"
    and "frameSize = Channel_HEADER_SIZE + len"
    and "\<not> length buf1 < frameSize"
    and "buf2 = subarray buf1 frameSize (length buf1)"
  then show "((parse, buf2), (parse, buf)) \<in> measure (\<lambda>(parse, buf). length buf)"
    by (auto simp: subarray_def Channel_HEADER_SIZE_def split: if_splits)
qed

declare onData_loop.simps [simp del]

definition onData :: "(bytes \<Rightarrow> 'j option) \<Rightarrow> Channel \<Rightarrow> bytes \<Rightarrow> Channel \<times> call list \<times> error option" where
  "onData parse ch chunk =
     (case onData_loop parse (buffer ch @ chunk) of
        (b, calls, err) \<Rightarrow> (ch\<lparr>buffer := b\<rparr>, calls, err))"

text \<open>
  The constructor subscribes \<^verbatim>\<open>onData\<close> to the input stream's \<^verbatim>\<open>data\<close> events, so a
  sequence of chunks is a sequence of \<^verbatim>\<open>onData\<close> calls on the same object. An exception
  thrown by the handler ends the run.
\<close>

fun feed :: "(bytes \<Rightarrow> 'j option) \<Rightarrow> Channel \<Rightarrow> bytes list \<Rightarrow> Channel \<times> call list \<times> error option" where
  "feed parse ch [] = (ch, [], None)"
| "feed parse ch (chunk # chunks) =
     (case onData parse ch chunk of
        (ch1, calls, Some e) \<Rightarrow> (ch1, calls, Some e)
      | (ch1, calls, None) \<Rightarrow>
          (case feed parse ch1 chunks of
             (ch2, calls2, err) \<Rightarrow> (ch2, calls @ calls2, err)))"

subsection \<open>Notions used to state the properties of the channel\<close>

text \<open>
  The stretch of the byte stream that one call of the loop accounts for: the data of a
  passthrough run, and for a frame the bytes that \<^verbatim>\<open>send\<close> writes for its type and
  payload.
\<close>

fun wire :: "call \<Rightarrow> bytes" where
  "wire (OnPassthrough d) = d"
| "wire (HandleFrame ty pl) = (case send ty (Some pl) of Inl e \<Rightarrow> [] | Inr w \<Rightarrow> w)"

text \<open>Adjacent passthrough runs merged into one, for comparing two deliveries.\<close>

fun merge_passthrough :: "call list \<Rightarrow> call list" where
  "merge_passthrough (OnPassthrough d1 # OnPassthrough d2 # cs) =
     merge_passthrough (OnPassthrough (d1 @ d2) # cs)"
| "merge_passthrough (c # cs) = c # merge_passthrough cs"
| "merge_passthrough [] = []"

section \<open>Little-endian numbers\<close>

text \<open>
  A number below \<^verbatim>\<open>2^32\<close> and its four little-endian bytes determine each other. Both
  implementations rest on this: \<^verbatim>\<open>writeUInt32LE\<close> and \<^verbatim>\<open>readUInt32LE\<close> in Node.js,
  \<^verbatim>\<open>store<u32\<close>> and \<^verbatim>\<open>load<u32\<close>> in AssemblyScript.
\<close>

lemma unat_byte_of_nat: "unat (of_nat n :: byte) = n mod 256"
  by (simp add: unat_of_nat)

lemma le_bytes_value:
  assumes "n < 2 ^ 32"
  shows "n mod 256 + (n div 2 ^ 8) mod 256 * 2 ^ 8 + (n div 2 ^ 16) mod 256 * 2 ^ 16
         + (n div 2 ^ 24) mod 256 * 2 ^ 24 = (n :: nat)"
proof -
  define r0 q1 r1 q2 r2 q3 where "r0 = n mod 256" and "q1 = n div 256" and "r1 = q1 mod 256"
    and "q2 = n div 65536" and "r2 = q2 mod 256" and "q3 = n div 16777216"
  have b0: "q1 div 256 = q2"
    using div_mult2_eq [of n 256 256] by (simp add: q1_def q2_def)
  have c0: "q2 div 256 = q3"
    using div_mult2_eq [of n 65536 256] by (simp add: q2_def q3_def)
  have a: "n = r0 + 256 * q1"
    by (simp add: r0_def q1_def)
  have b: "q1 = r1 + 256 * q2"
    using mult_div_mod_eq [of 256 q1] by (simp add: b0 r1_def)
  have c: "q2 = r2 + 256 * q3"
    using mult_div_mod_eq [of 256 q2] by (simp add: c0 r2_def)
  have d: "q3 < 256" using assms by (simp add: q3_def)
  have "r0 + r1 * 256 + r2 * 65536 + q3 * 16777216 = n"
    using a b c by linarith
  then show ?thesis
    using d by (simp add: r0_def q1_def r1_def q2_def r2_def q3_def)
qed

lemma readUInt32LE_written:
  assumes "n < 2 ^ 32"
  shows "readUInt32LE ([m0, m1, m2, m3, t, of_nat n, of_nat (n div 2 ^ 8),
            of_nat (n div 2 ^ 16), of_nat (n div 2 ^ 24)] @ rest) 5 = n"
  using le_bytes_value [OF assms] assms
  by (simp add: readUInt32LE_def unat_byte_of_nat)


lemma le_value_bytes:
  fixes a0 a1 a2 a3 :: nat
  assumes "a0 < 256" "a1 < 256" "a2 < 256" "a3 < 256"
  defines "n \<equiv> a0 + a1 * 2 ^ 8 + a2 * 2 ^ 16 + a3 * 2 ^ 24"
  shows "n < 2 ^ 32" and "n mod 256 = a0" and "(n div 2 ^ 8) mod 256 = a1"
    and "(n div 2 ^ 16) mod 256 = a2" and "(n div 2 ^ 24) mod 256 = a3"
proof -
  define k2 where "k2 = a2 + 256 * a3"
  define k1 where "k1 = a1 + 256 * k2"
  show "n < 2 ^ 32" using assms by (simp add: n_def)
  have n0: "n = a0 + 256 * k1" by (simp add: n_def k1_def k2_def)
  show "n mod 256 = a0" using assms(1) by (simp add: n0)
  have d1: "n div 256 = k1" using assms(1) by (simp add: n0)
  then show "(n div 2 ^ 8) mod 256 = a1" using assms(2) by (simp add: k1_def)
  have "n div 65536 = n div 256 div 256" using div_mult2_eq [of n 256 256] by simp
  then have d2: "n div 65536 = k2" using assms(2) by (simp add: d1 k1_def)
  then show "(n div 2 ^ 16) mod 256 = a2" using assms(3) by (simp add: k2_def)
  have "n div 16777216 = n div 65536 div 256" using div_mult2_eq [of n 65536 256] by simp
  then have d3: "n div 16777216 = a3" using assms(3) by (simp add: d2 k2_def)
  then show "(n div 2 ^ 24) mod 256 = a3" using assms(4) by simp
qed

lemma byte_of_nat_eq: "n mod 256 = unat (b :: byte) \<Longrightarrow> of_nat n = b"
  by (simp add: word_unat_eq_iff unat_byte_of_nat)

lemma unat_byte_less: "unat (b :: byte) < 256"
  using unsigned_less [of b, where ?'a = nat] by simp

lemma readUInt32LE_less: "readUInt32LE buf off < 2 ^ 32"
  unfolding readUInt32LE_def
  by (rule le_value_bytes(1)) (rule unat_byte_less)+

lemma bytes_of_value:
  fixes b0 b1 b2 b3 :: byte
  defines "n \<equiv> unat b0 + unat b1 * 2 ^ 8 + unat b2 * 2 ^ 16 + unat b3 * 2 ^ 24"
  shows "of_nat n = b0" and "of_nat (n div 2 ^ 8) = b1"
    and "of_nat (n div 2 ^ 16) = b2" and "of_nat (n div 2 ^ 24) = b3"
  unfolding n_def
  by (rule byte_of_nat_eq,
      rule le_value_bytes(2-5) [OF unat_byte_less unat_byte_less unat_byte_less unat_byte_less])+

lemma written_readUInt32LE:
  "[of_nat (readUInt32LE buf off), of_nat (readUInt32LE buf off div 2 ^ 8),
    of_nat (readUInt32LE buf off div 2 ^ 16), of_nat (readUInt32LE buf off div 2 ^ 24)]
   = [buf ! off, buf ! (off + 1), buf ! (off + 2), buf ! (off + 3) :: byte]"
  by (simp only: readUInt32LE_def bytes_of_value)

section \<open>The codec: \<^verbatim>\<open>encode\<close> and \<^verbatim>\<open>decode\<close>\<close>

subsection \<open>Little-endian words and the layout of an encoded frame\<close>

lemma load_store_u32:
  fixes w :: u32
  shows "ucast (ucast w :: byte) OR push_bit 8 (ucast (ucast (drop_bit 8 w) :: byte))
         OR push_bit 16 (ucast (ucast (drop_bit 16 w) :: byte))
         OR push_bit 24 (ucast (ucast (drop_bit 24 w) :: byte)) = w"
proof (rule bit_word_eqI)
  fix n :: nat
  assume "n < LENGTH(32)"
  then have n: "n < 32" by simp
  consider "n < 8" | "8 \<le> n" "n < 16" | "16 \<le> n" "n < 24" | "24 \<le> n" "n < 32"
    using n by linarith
  then show "bit (ucast (ucast w :: byte) OR push_bit 8 (ucast (ucast (drop_bit 8 w) :: byte))
         OR push_bit 16 (ucast (ucast (drop_bit 16 w) :: byte))
         OR push_bit 24 (ucast (ucast (drop_bit 24 w) :: byte)) :: u32) n = bit w n"
    by cases (auto simp: bit_simps)
qed

text \<open>\<^verbatim>\<open>load<u32\<close>> reads the same number as \<^verbatim>\<open>readUInt32LE\<close>.\<close>

lemma bytes_of_load_u32:
  fixes b0 b1 b2 b3 :: byte
  defines "w \<equiv> (ucast b0 OR push_bit 8 (ucast b1) OR push_bit 16 (ucast b2)
                  OR push_bit 24 (ucast b3) :: u32)"
  shows "ucast w = b0" and "ucast (drop_bit 8 w) = b1"
    and "ucast (drop_bit 16 w) = b2" and "ucast (drop_bit 24 w) = b3"
  unfolding w_def
  by (rule bit_word_eqI; auto simp: bit_simps dest: bit_imp_le_length)+

lemma unat_ucast_byte: "unat (ucast (w :: u32) :: byte) = unat w mod 256"
  by (simp add: unsigned_ucast_eq take_bit_eq_mod)

lemma unat_drop_bit_byte:
  "unat (ucast (drop_bit k (w :: u32)) :: byte) = (unat w div 2 ^ k) mod 256"
  by (simp only: unsigned_ucast_eq unat_drop_bit_eq) (simp add: take_bit_eq_mod drop_bit_eq_div)

lemma unat_load_u32: "unat (load_u32 buf off) = readUInt32LE buf off"
proof -
  define w where "w = load_u32 buf off"
  have lt: "unat w < 2 ^ 32" using unsigned_less [of w, where ?'a = nat] by simp
  note b = bytes_of_load_u32 [of "buf ! off" "buf ! (off + 1)" "buf ! (off + 2)" "buf ! (off + 3)",
      folded load_u32_def w_def]
  have "unat (buf ! off) = unat w mod 256"
    by (simp only: b(1) [symmetric] unat_ucast_byte)
  moreover have "unat (buf ! (off + 1)) = (unat w div 2 ^ 8) mod 256"
    by (simp only: b(2) [symmetric] unat_drop_bit_byte)
  moreover have "unat (buf ! (off + 2)) = (unat w div 2 ^ 16) mod 256"
    by (simp only: b(3) [symmetric] unat_drop_bit_byte)
  moreover have "unat (buf ! (off + 3)) = (unat w div 2 ^ 24) mod 256"
    by (simp only: b(4) [symmetric] unat_drop_bit_byte)
  ultimately have "readUInt32LE buf off = unat w"
    unfolding readUInt32LE_def using le_bytes_value [OF lt] by simp
  then show ?thesis by (simp add: w_def)
qed

lemma sint_neg_iff: "sint (w :: u32) < 0 \<longleftrightarrow> 2 ^ 31 \<le> unat w"
proof -
  have lt: "unat w < 2 ^ 32" using unsigned_less [of w, where ?'a = nat] by simp
  have "sint w < 0 \<longleftrightarrow> bit w 31"
    using bit_last_iff [of w] by simp
  also have "\<dots> \<longleftrightarrow> bit (unat w) 31"
    by (simp add: bit_unsigned_iff)
  also have "\<dots> \<longleftrightarrow> odd (unat w div 2 ^ 31)"
    by (simp add: bit_iff_odd)
  also have "\<dots> \<longleftrightarrow> 2 ^ 31 \<le> unat w"
  proof (cases "2 ^ 31 \<le> unat w")
    case True
    then have "unat w div 2 ^ 31 = 1" using lt by simp
    then show ?thesis using True by simp
  next
    case False
    then have "unat w div 2 ^ 31 = 0" by simp
    then show ?thesis using False by simp
  qed
  finally show ?thesis .
qed

lemma unat_HEADER_SIZE: "unat HEADER_SIZE = 9"
  by (simp add: HEADER_SIZE_def)

lemma replicate_9: "replicate (9 + n) x = [x, x, x, x, x, x, x, x, x] @ replicate n x"
  by (simp add: numeral_eq_Suc)

lemma encode_Some:
  "9 + length p \<le> MAX_BYTE_LENGTH \<Longrightarrow>
   encode ty (Some p) =
     Inr ([MAGIC_W, MAGIC_I, MAGIC_P, MAGIC_C, ucast ty,
           ucast (of_nat (length p) :: u32), ucast (drop_bit 8 (of_nat (length p) :: u32)),
           ucast (drop_bit 16 (of_nat (length p) :: u32)),
           ucast (drop_bit 24 (of_nat (length p) :: u32))] @ p)"
  by (simp add: encode_def new_ArrayBuffer_def store_u8_def store_u32_def memory_copy_def
      unat_HEADER_SIZE Let_def replicate_9 del: replicate_add)

lemma encode_None:
  "encode ty None = Inr [MAGIC_W, MAGIC_I, MAGIC_P, MAGIC_C, ucast ty, 0, 0, 0, 0]"
proof -
  have "replicate 9 (0 :: byte) = [0, 0, 0, 0, 0, 0, 0, 0, 0]" by (simp add: numeral_eq_Suc)
  moreover have "[z0, z1, z2, z3, z4, z5, z6, z7, z8]
      [0 := a, 1 := b, 2 := c, 3 := d, 4 := e, 5 := f, 6 := g, 7 := h, 8 := i]
    = [a, b, c, d, e, f, g, h, i]" for z0 z1 z2 z3 z4 z5 z6 z7 z8 a b c d e f g h i :: byte
    by (simp add: numeral_eq_Suc)
  ultimately show ?thesis
    by (simp add: encode_def new_ArrayBuffer_def MAX_BYTE_LENGTH_def store_u8_def store_u32_def
        unat_HEADER_SIZE Let_def)
qed

lemma encode_too_large:
  "MAX_BYTE_LENGTH < 9 + length p \<Longrightarrow> encode ty (Some p) = Inl AllocationTooLarge"
  by (simp add: encode_def new_ArrayBuffer_def unat_HEADER_SIZE Let_def)

lemma unat_length_u32: "n < 2 ^ 32 \<Longrightarrow> unat (of_nat n :: u32) = n"
  by (simp add: unat_of_nat)

lemma length_lt_HEADER_SIZE:
  "n < 2 ^ 32 \<Longrightarrow> (of_nat n :: u32) < HEADER_SIZE \<longleftrightarrow> n < 9"
  by (simp add: word_less_nat_alt unat_HEADER_SIZE unat_length_u32)

lemma length_lt_frame:
  "n < 2 ^ 32 \<Longrightarrow> 9 + unat len < 2 ^ 32 \<Longrightarrow>
     (of_nat n :: u32) < HEADER_SIZE + len \<longleftrightarrow> n < 9 + unat len"
  by (simp add: word_less_nat_alt unat_word_ariths unat_HEADER_SIZE unat_length_u32)

lemma take_4_eq:
  "4 \<le> length xs \<Longrightarrow>
     take 4 xs = [a, b, c, d] \<longleftrightarrow> xs ! 0 = a \<and> xs ! 1 = b \<and> xs ! 2 = c \<and> xs ! 3 = d"
  by (cases xs; cases "tl xs"; cases "tl (tl xs)"; cases "tl (tl (tl xs))")
     (auto simp: numeral_eq_Suc)

lemma decode_cases:
  assumes len32: "length data < 2 ^ 32"
    and nowrap: "9 \<le> length data \<Longrightarrow> 9 + unat (load_u32 data 5) < 2 ^ 32"
  shows "decode data =
     (if length data < 9 then Inr None
      else if take 4 data \<noteq> [0x57, 0x49, 0x50, 0x43] then Inr None
      else if length data < 9 + unat (load_u32 data 5) then Inr None
      else if 2 ^ 31 \<le> unat (load_u32 data 5) then Inl RangeError
      else Inr (Some \<lparr>type = ucast (data ! 4),
                       payload = take (unat (load_u32 data 5)) (drop 9 data)\<rparr>))"
proof (cases "length data < 9")
  case True
  then show ?thesis
    by (simp add: decode_def length_lt_HEADER_SIZE [OF len32])
next
  case False
  then have ge: "9 \<le> length data" by simp
  have c1: "\<not> (of_nat (length data) :: u32) < HEADER_SIZE"
    using False by (simp add: length_lt_HEADER_SIZE [OF len32])
  have c2: "(of_nat (length data) :: u32) < HEADER_SIZE + load_u32 data 5
            \<longleftrightarrow> length data < 9 + unat (load_u32 data 5)"
    by (rule length_lt_frame [OF len32 nowrap [OF ge]])
  have magic: "(load_u8 data 0 \<noteq> MAGIC_W \<or> load_u8 data 1 \<noteq> MAGIC_I
            \<or> load_u8 data 2 \<noteq> MAGIC_P \<or> load_u8 data 3 \<noteq> MAGIC_C)
            \<longleftrightarrow> take 4 data \<noteq> [0x57, 0x49, 0x50, 0x43]"
    using ge by (auto simp: take_4_eq load_u8_def MAGIC_W_def MAGIC_I_def MAGIC_P_def MAGIC_C_def)
  have pl: "memory_copy (replicate n 0) 0 data (unat HEADER_SIZE) n = take n (drop 9 data)"
    if "\<not> length data < 9 + n" for n
    using that by (simp add: memory_copy_def unat_HEADER_SIZE)
  have zero: "\<not> 0 < load_u32 data 5 \<Longrightarrow> unat (load_u32 data 5) = 0"
    by (simp add: word_greater_zero_iff)
  show ?thesis
    unfolding decode_def Let_def
    using False c1 c2 magic pl zero
    by (simp add: load_u8_def sint_neg_iff)
qed

lemma load_u32_header:
  "load_u32 ([m0, m1, m2, m3, t, ucast w, ucast (drop_bit 8 w), ucast (drop_bit 16 w),
              ucast (drop_bit 24 w)] @ rest) 5 = (w :: u32)"
  by (simp add: load_u32_def load_store_u32)

lemma decode_encoded:
  assumes "9 + length p \<le> MAX_BYTE_LENGTH"
  shows "\<exists>w. encode ty (Some p) = Inr w
     \<and> decode w = Inr (Some \<lparr>type = ucast (ucast ty :: byte), payload = p\<rparr>)"
proof -
  define data where "data = [MAGIC_W, MAGIC_I, MAGIC_P, MAGIC_C, ucast ty,
           ucast (of_nat (length p) :: u32), ucast (drop_bit 8 (of_nat (length p) :: u32)),
           ucast (drop_bit 16 (of_nat (length p) :: u32)),
           ucast (drop_bit 24 (of_nat (length p) :: u32))] @ p"
  have enc: "encode ty (Some p) = Inr data"
    using assms by (simp add: encode_Some data_def)
  have small: "9 + length p < 2 ^ 31" using assms by (simp add: MAX_BYTE_LENGTH_def)
  have len: "length data = 9 + length p" by (simp add: data_def)
  have ld: "load_u32 data 5 = of_nat (length p)"
    unfolding data_def by (rule load_u32_header)
  have un: "unat (load_u32 data 5) = length p"
    using small by (simp add: ld unat_length_u32)
  have mg: "take 4 data = [0x57, 0x49, 0x50, 0x43]"
    by (simp add: data_def MAGIC_W_def MAGIC_I_def MAGIC_P_def MAGIC_C_def)
  have ty: "data ! 4 = ucast ty" by (simp add: data_def)
  have pl: "drop 9 data = p" by (simp add: data_def)
  have "decode data = (if length data < 9 then Inr None
      else if take 4 data \<noteq> [0x57, 0x49, 0x50, 0x43] then Inr None
      else if length data < 9 + unat (load_u32 data 5) then Inr None
      else if 2 ^ 31 \<le> unat (load_u32 data 5) then Inl RangeError
      else Inr (Some \<lparr>type = ucast (data ! 4),
                       payload = take (unat (load_u32 data 5)) (drop 9 data)\<rparr>))"
    by (rule decode_cases) (use small in \<open>simp_all add: len un\<close>)
  then have "decode data = Inr (Some \<lparr>type = ucast (ucast ty :: byte), payload = p\<rparr>)"
    using small by (simp add: len un mg ty pl)
  with enc show ?thesis by blast
qed

lemma ucast_byte_u32:
  "(ucast (ucast (b :: byte) :: u32) :: byte) = b"
  by (rule bit_word_eqI) (simp add: bit_simps)

lemma encode_OPEN: "encode OPEN None = Inr [0x57, 0x49, 0x50, 0x43, 0, 0, 0, 0, 0]"
  by (simp add: encode_None MAGIC_W_def MAGIC_I_def MAGIC_P_def MAGIC_C_def OPEN_def)

lemma encode_DATA_hi:
  "encode DATA (Some [0x68, 0x69]) = Inr [0x57, 0x49, 0x50, 0x43, 3, 2, 0, 0, 0, 0x68, 0x69]"
  by (simp add: encode_Some MAX_BYTE_LENGTH_def MAGIC_W_def MAGIC_I_def MAGIC_P_def MAGIC_C_def
      DATA_def)

lemma decode_magic_only: "decode (take 4 data) = Inr None"
proof -
  have "length (take 4 data) < 9" by simp
  then have "(of_nat (length (take 4 data)) :: u32) < HEADER_SIZE"
    by (simp add: length_lt_HEADER_SIZE)
  then show ?thesis unfolding decode_def by simp
qed

text \<open>
  A header whose length field is \<open>2^32 - 9\<close> or more makes \<^verbatim>\<open>HEADER_SIZE + len\<close> wrap
  around, the size test passes on nine bytes, and the allocation of the payload throws.
\<close>

lemma decode_length_wraps:
  "decode [0x57, 0x49, 0x50, 0x43, 3, 0xFF, 0xFF, 0xFF, 0xFF] = Inl RangeError"
  by (simp add: decode_def HEADER_SIZE_def load_u8_def load_u32_def MAGIC_W_def MAGIC_I_def
      MAGIC_P_def MAGIC_C_def)

subsection \<open>Concrete frames\<close>

text \<open>
  Claim C9. \<^verbatim>\<open>encode(OPEN)\<close> without a payload is the nine bytes
  \<^verbatim>\<open>57 49 50 43 00 00 00 00 00\<close>; \<^verbatim>\<open>encode(DATA, "hi")\<close> is the eleven bytes
  \<^verbatim>\<open>57 49 50 43 03 02 00 00 00 68 69\<close>; \<^verbatim>\<open>decode\<close> of only the first four bytes of
  anything returns \<^verbatim>\<open>null\<close>, the code's signal for an incomplete frame.
\<close>

theorem codec_concrete_scenario:
  "encode OPEN None = Inr [0x57, 0x49, 0x50, 0x43, 0x00, 0x00, 0x00, 0x00, 0x00]
   \<and> encode DATA (Some [0x68, 0x69])
       = Inr [0x57, 0x49, 0x50, 0x43, 0x03, 0x02, 0x00, 0x00, 0x00, 0x68, 0x69]
   \<and> decode (take 4 frame) = Inr None"
  by (simp add: encode_OPEN encode_DATA_hi decode_magic_only)

theorem codec_concrete_scenario_witness:
  "decode (take 4 [0x57, 0x49, 0x50, 0x43, 0x03, 0x02, 0x00, 0x00, 0x00, 0x68, 0x69]) = Inr None"
  using codec_concrete_scenario [of "[0x57, 0x49, 0x50, 0x43, 0x03, 0x02, 0x00, 0x00, 0x00, 0x68, 0x69]"]
  by simp

subsection \<open>Round trip\<close>

text \<open>
  The round trip stops where the frame no longer fits a buffer: a payload of 1073741795
  bytes is an array the runtime holds, but its frame of 9 more bytes is one byte too
  long, and \<^verbatim>\<open>encode\<close> aborts in \<^verbatim>\<open>new ArrayBuffer\<close>.
\<close>

theorem decode_encode_counterexample:
  "length (replicate 1073741795 (0 :: byte)) \<le> MAX_BYTE_LENGTH
   \<and> length (replicate 1073741795 (0 :: byte)) \<le> 2 ^ 32 - 1
   \<and> encode DATA (Some (replicate 1073741795 0)) = Inl AllocationTooLarge"
  by (simp add: encode_too_large MAX_BYTE_LENGTH_def)

text \<open>
  Claim C4, amended. For every message type byte and every payload of at most
  1073741794 bytes (the payloads whose frame of \<^verbatim>\<open>9 + N\<close> bytes the runtime allocates),
  \<^verbatim>\<open>encode(type, payload)\<close> returns a buffer and \<^verbatim>\<open>decode\<close> of that buffer is a frame
  with that type and exactly those payload bytes.
\<close>

theorem decode_encode_roundtrip:
  "length p \<le> 1073741794 \<Longrightarrow>
     (case encode (ucast (b :: byte)) (Some p) of
        Inl e \<Rightarrow> Inl e
      | Inr w \<Rightarrow> decode w) = Inr (Some \<lparr>type = ucast b, payload = p\<rparr>)"
proof -
  assume "length p \<le> 1073741794"
  then have "9 + length p \<le> MAX_BYTE_LENGTH" by (simp add: MAX_BYTE_LENGTH_def)
  from decode_encoded [OF this, of "ucast b"] show ?thesis
    by (auto simp: ucast_byte_u32)
qed

theorem decode_encode_roundtrip_witness:
  "(case encode (ucast (0xFF :: byte)) (Some [0x68, 0x69]) of
      Inl e \<Rightarrow> Inl e
    | Inr w \<Rightarrow> decode w) = Inr (Some \<lparr>type = 0xFF, payload = [0x68, 0x69]\<rparr>)"
  using decode_encode_roundtrip [of "[0x68, 0x69]" "0xFF"] by simp

subsection \<open>The decoding policy\<close>

text \<open>
  \<^verbatim>\<open>decode\<close> has one failure value: a buffer that is too short and a buffer with a
  wrong magic both give \<^verbatim>\<open>null\<close>, so the caller cannot tell them apart.
\<close>

theorem decode_outcomes_counterexample:
  "decode [0x57, 0x49] = Inr None \<and> decode [0, 0, 0, 0, 0, 0, 0, 0, 0] = Inr None"
  by (simp add: decode_def HEADER_SIZE_def load_u8_def MAGIC_W_def)

text \<open>
  Claim C5, amended. On a buffer whose length an \<^verbatim>\<open>i32\<close> holds and whose length field
  does not make \<^verbatim>\<open>9 + length\<close> leave the 32-bit range, \<^verbatim>\<open>decode\<close> checks in order:
  fewer than 9 bytes give \<^verbatim>\<open>null\<close>; first four bytes other than \<^verbatim>\<open>WIPC\<close> give
  \<^verbatim>\<open>null\<close>; fewer than \<open>9 + length\<close> bytes give \<^verbatim>\<open>null\<close> (the length is the
  little-endian \<^verbatim>\<open>u32\<close> at offset 5); otherwise the result is a frame with the type byte
  and the \<open>length\<close> bytes from offset 9. The same \<^verbatim>\<open>null\<close> stands for all three
  failures. Bytes beyond \<open>9 + length\<close> do not change the result.
\<close>

theorem decode_policy:
  assumes len31: "length data < 2 ^ 31"
    and nowrap: "9 \<le> length data \<Longrightarrow> 9 + unat (load_u32 data 5) < 2 ^ 32"
  shows "decode data =
     (if length data < 9 then Inr None
      else if take 4 data \<noteq> [0x57, 0x49, 0x50, 0x43] then Inr None
      else if length data < 9 + unat (load_u32 data 5) then Inr None
      else Inr (Some \<lparr>type = ucast (data ! 4),
                       payload = take (unat (load_u32 data 5)) (drop 9 data)\<rparr>))
   \<and> (9 \<le> length data \<longrightarrow> 9 + unat (load_u32 data 5) \<le> length data \<longrightarrow>
        decode (take (9 + unat (load_u32 data 5)) data) = decode data)"
proof
  have len32: "length data < 2 ^ 32" using len31 by simp
  have A: "decode data =
     (if length data < 9 then Inr None
      else if take 4 data \<noteq> [0x57, 0x49, 0x50, 0x43] then Inr None
      else if length data < 9 + unat (load_u32 data 5) then Inr None
      else Inr (Some \<lparr>type = ucast (data ! 4),
                       payload = take (unat (load_u32 data 5)) (drop 9 data)\<rparr>))"
    using decode_cases [OF len32 nowrap] len31 by auto
  show "decode data =
     (if length data < 9 then Inr None
      else if take 4 data \<noteq> [0x57, 0x49, 0x50, 0x43] then Inr None
      else if length data < 9 + unat (load_u32 data 5) then Inr None
      else Inr (Some \<lparr>type = ucast (data ! 4),
                       payload = take (unat (load_u32 data 5)) (drop 9 data)\<rparr>))"
    by (rule A)
  show "9 \<le> length data \<longrightarrow> 9 + unat (load_u32 data 5) \<le> length data \<longrightarrow>
        decode (take (9 + unat (load_u32 data 5)) data) = decode data"
  proof (intro impI)
    assume ge: "9 \<le> length data" and full: "9 + unat (load_u32 data 5) \<le> length data"
    let ?n = "unat (load_u32 data 5)"
    let ?d = "take (9 + ?n) data"
    have l: "length ?d = 9 + ?n" using full by simp
    have ld: "load_u32 ?d 5 = load_u32 data 5" by (simp add: load_u32_def)
    have B: "decode ?d =
     (if length ?d < 9 then Inr None
      else if take 4 ?d \<noteq> [0x57, 0x49, 0x50, 0x43] then Inr None
      else if length ?d < 9 + unat (load_u32 ?d 5) then Inr None
      else if 2 ^ 31 \<le> unat (load_u32 ?d 5) then Inl RangeError
      else Inr (Some \<lparr>type = ucast (?d ! 4),
                       payload = take (unat (load_u32 ?d 5)) (drop 9 ?d)\<rparr>))"
      by (rule decode_cases) (use full len32 nowrap [OF ge] in \<open>simp_all add: ld\<close>)
    have t4: "take 4 ?d = take 4 data" by (simp add: min_def)
    have d9: "take ?n (drop 9 ?d) = take ?n (drop 9 data)" by (simp add: drop_take)
    show "decode ?d = decode data"
      using ge full len31 unfolding A B l ld t4 d9 by simp
  qed
qed

theorem decode_policy_witness:
  "decode [0x57, 0x49, 0x50, 0x43, 3, 2, 0, 0, 0, 0x68, 0x69, 0x21]
     = Inr (Some \<lparr>type = 3, payload = [0x68, 0x69]\<rparr>)
   \<and> decode [0x57, 0x49, 0x50, 0x43, 3, 2, 0, 0, 0, 0x68, 0x69]
     = decode [0x57, 0x49, 0x50, 0x43, 3, 2, 0, 0, 0, 0x68, 0x69, 0x21]"
  using decode_policy [of "[0x57, 0x49, 0x50, 0x43, 3, 2, 0, 0, 0, 0x68, 0x69, 0x21]"]
  by (simp add: load_u32_def)

section \<open>The channel: \<^verbatim>\<open>onData\<close>\<close>

subsection \<open>Searching for the magic\<close>

lemma length_MAGIC: "length Channel_MAGIC = 4"
  by (simp add: Channel_MAGIC_def)

lemma indexOf_prefix: "take (length v) buf = v \<Longrightarrow> indexOf buf v = Some 0"
  by (cases buf) auto

lemma indexOf_Some:
  "indexOf buf v = Some i \<Longrightarrow> i \<le> length buf \<and> take (length v) (drop i buf) = v"
proof (induction buf arbitrary: i)
  case Nil
  then show ?case by (simp split: if_splits)
next
  case (Cons b bs)
  show ?case
  proof (cases "take (length v) (b # bs) = v")
    case True
    with Cons.prems show ?thesis by simp
  next
    case False
    with Cons.prems obtain j where j: "indexOf bs v = Some j" "i = Suc j"
      by auto
    from Cons.IH [OF j(1)] j(2) show ?thesis by simp
  qed
qed

lemma indexOf_MAGIC_Some:
  assumes "indexOf buf Channel_MAGIC = Some i"
  shows "i + 4 \<le> length buf" and "take 4 (drop i buf) = Channel_MAGIC"
proof -
  from indexOf_Some [OF assms] have le: "i \<le> length buf"
    and tk: "take 4 (drop i buf) = Channel_MAGIC"
    by (simp_all add: length_MAGIC)
  show "take 4 (drop i buf) = Channel_MAGIC" by (rule tk)
  have "length (take 4 (drop i buf)) = 4" by (simp add: tk length_MAGIC)
  then show "i + 4 \<le> length buf" by simp
qed

lemma indexOf_None_append_MAGIC:
  "indexOf g Channel_MAGIC = None \<Longrightarrow>
     indexOf (g @ Channel_MAGIC @ rest) Channel_MAGIC = Some (length g)"
proof (induction g)
  case Nil
  then show ?case by (simp add: indexOf_prefix)
next
  case (Cons b bs)
  from Cons.prems have ne: "take 4 (b # bs) \<noteq> Channel_MAGIC"
    and no: "indexOf bs Channel_MAGIC = None"
    by (auto simp: length_MAGIC split: if_splits)
  have "take 4 ((b # bs) @ Channel_MAGIC @ rest) \<noteq> Channel_MAGIC"
  proof (cases "4 \<le> length (b # bs)")
    case True
    then have "take 4 ((b # bs) @ Channel_MAGIC @ rest) = take 4 (b # bs)"
      by (simp only: take_append) simp
    then show ?thesis using ne by (simp only:) simp
  next
    case False
    then have "length bs < 3" by simp
    then consider "bs = []" | x where "bs = [x]" | x y where "bs = [x, y]"
      by (cases bs; cases "tl bs"; cases "tl (tl bs)") auto
    then show ?thesis
      by cases (auto simp: Channel_MAGIC_def)
  qed
  with Cons.IH [OF no] show ?case by (simp add: length_MAGIC)
qed

lemma indexOf_append:
  "indexOf b Channel_MAGIC = Some i \<Longrightarrow> indexOf (b @ c) Channel_MAGIC = Some i"
proof (induction b arbitrary: i)
  case Nil
  then show ?case by (simp add: Channel_MAGIC_def)
next
  case (Cons x xs)
  show ?case
  proof (cases "take 4 (x # xs) = Channel_MAGIC")
    case True
    then have "4 \<le> length (x # xs)"
      by (metis length_MAGIC length_take min.cobounded1)
    then have "take 4 ((x # xs) @ c) = take 4 (x # xs)" by (simp only: take_append) simp
    with True Cons.prems show ?thesis by (simp add: length_MAGIC)
  next
    case False
    with Cons.prems obtain j where j: "indexOf xs Channel_MAGIC = Some j" "i = Suc j"
      by (auto simp: length_MAGIC)
    have "indexOf (xs @ c) Channel_MAGIC = Some j" by (rule Cons.IH [OF j(1)])
    moreover have "take 4 ((x # xs) @ c) \<noteq> Channel_MAGIC"
    proof
      assume a: "take 4 ((x # xs) @ c) = Channel_MAGIC"
      from indexOf_MAGIC_Some(1) [OF j(1)] have "4 \<le> length (x # xs)" by simp
      then have "take 4 ((x # xs) @ c) = take 4 (x # xs)" by (simp only: take_append) simp
      with a False show False by simp
    qed
    ultimately show ?thesis using j(2) by (simp add: length_MAGIC)
  qed
qed

lemma indexOf_None_iff:
  "indexOf buf Channel_MAGIC = None \<longleftrightarrow> (\<forall>i. take 4 (drop i buf) \<noteq> Channel_MAGIC)"
proof (induction buf)
  case Nil
  show ?case by (simp add: Channel_MAGIC_def)
next
  case (Cons b bs)
  have "(\<forall>i. take 4 (drop i (b # bs)) \<noteq> Channel_MAGIC)
        \<longleftrightarrow> take 4 (b # bs) \<noteq> Channel_MAGIC \<and> (\<forall>i. take 4 (drop i bs) \<noteq> Channel_MAGIC)"
  proof
    assume a: "\<forall>i. take 4 (drop i (b # bs)) \<noteq> Channel_MAGIC"
    have "take 4 (b # bs) \<noteq> Channel_MAGIC" using a [rule_format, of 0] by simp
    moreover have "take 4 (drop i bs) \<noteq> Channel_MAGIC" for i
      using a [rule_format, of "Suc i"] by simp
    ultimately show "take 4 (b # bs) \<noteq> Channel_MAGIC \<and> (\<forall>i. take 4 (drop i bs) \<noteq> Channel_MAGIC)"
      by simp
  next
    assume a: "take 4 (b # bs) \<noteq> Channel_MAGIC \<and> (\<forall>i. take 4 (drop i bs) \<noteq> Channel_MAGIC)"
    show "\<forall>i. take 4 (drop i (b # bs)) \<noteq> Channel_MAGIC"
    proof
      fix i show "take 4 (drop i (b # bs)) \<noteq> Channel_MAGIC"
        using a by (cases i) simp_all
    qed
  qed
  with Cons.IH show ?case by (simp add: length_MAGIC)
qed

subsection \<open>One pass of the loop\<close>

text \<open>
  The loop body, case by case: an empty buffer; no magic in the buffer; magic at a
  positive offset; magic at the head with the frame still incomplete; magic at the head
  with the whole frame buffered.
\<close>

lemma loop_empty: "onData_loop parse [] = ([], [], None)"
  by (subst onData_loop.simps) simp

lemma loop_no_magic:
  "buf \<noteq> [] \<Longrightarrow> indexOf buf Channel_MAGIC = None \<Longrightarrow>
     onData_loop parse buf = ([], [OnPassthrough buf], None)"
  by (subst onData_loop.simps) simp

lemma loop_head_wait:
  assumes "take 4 buf = Channel_MAGIC"
    and "length buf < 9 \<or> length buf < 9 + readUInt32LE buf 5"
  shows "onData_loop parse buf = (buf, [], None)"
proof -
  have idx: "indexOf buf Channel_MAGIC = Some 0"
    using assms(1) by (simp add: indexOf_prefix length_MAGIC)
  have ne: "buf \<noteq> []" using assms(1) by (auto simp: Channel_MAGIC_def)
  show ?thesis
    using assms(2) ne
    by (subst onData_loop.simps) (auto simp: idx Channel_HEADER_SIZE_def Let_def)
qed

lemma loop_head_frame:
  assumes "take 4 buf = Channel_MAGIC"
    and "9 + readUInt32LE buf 5 \<le> length buf"
  shows "onData_loop parse buf =
     (case handleFrame parse (buf ! 4) (take (readUInt32LE buf 5) (drop 9 buf)) of
        Inl e \<Rightarrow> (drop (9 + readUInt32LE buf 5) buf,
                  [HandleFrame (buf ! 4) (take (readUInt32LE buf 5) (drop 9 buf))], Some e)
      | Inr cb \<Rightarrow>
          (case onData_loop parse (drop (9 + readUInt32LE buf 5) buf) of
             (b, calls, err) \<Rightarrow>
               (b, HandleFrame (buf ! 4) (take (readUInt32LE buf 5) (drop 9 buf)) # calls, err)))"
proof -
  have idx: "indexOf buf Channel_MAGIC = Some 0"
    using assms(1) by (simp add: indexOf_prefix length_MAGIC)
  have ne: "buf \<noteq> []" using assms(1) by (auto simp: Channel_MAGIC_def)
  have sub: "subarray buf 9 (9 + readUInt32LE buf 5) = take (readUInt32LE buf 5) (drop 9 buf)"
    by (simp add: subarray_def drop_take)
  have sub2: "subarray buf (9 + readUInt32LE buf 5) (length buf) = drop (9 + readUInt32LE buf 5) buf"
    by (simp add: subarray_def)
  show ?thesis
    using assms(2) ne
    by (subst onData_loop.simps)
       (simp add: idx Channel_HEADER_SIZE_def Let_def sub sub2 readUInt8_def
          split: sum.split prod.split)
qed

lemma loop_skip:
  assumes "indexOf buf Channel_MAGIC = Some i" and "0 < i"
  shows "onData_loop parse buf =
     (case onData_loop parse (drop i buf) of
        (b, calls, err) \<Rightarrow> (b, OnPassthrough (take i buf) # calls, err))"
proof -
  define buf1 where "buf1 = drop i buf"
  from indexOf_MAGIC_Some [OF assms(1)]
  have len: "i + 4 \<le> length buf" and mg: "take 4 buf1 = Channel_MAGIC"
    by (simp_all add: buf1_def)
  have ne: "buf \<noteq> []" using len by auto
  have s1: "subarray buf 0 i = take i buf" by (simp add: subarray_def)
  have s2: "subarray buf i (length buf) = buf1" by (simp add: subarray_def buf1_def)
  have sub: "subarray buf1 9 (9 + readUInt32LE buf1 5)
             = take (readUInt32LE buf1 5) (drop 9 buf1)"
    by (simp add: subarray_def drop_take)
  have sub2: "subarray buf1 (9 + readUInt32LE buf1 5) (length buf1)
              = drop (9 + readUInt32LE buf1 5) buf1"
    by (simp add: subarray_def)
  consider (wait) "length buf1 < 9 \<or> length buf1 < 9 + readUInt32LE buf1 5"
    | (frame) "9 + readUInt32LE buf1 5 \<le> length buf1"
    by linarith
  then have "onData_loop parse buf =
     (case onData_loop parse buf1 of
        (b, calls, err) \<Rightarrow> (b, OnPassthrough (take i buf) # calls, err))"
  proof cases
    case wait
    have "onData_loop parse buf = (buf1, [OnPassthrough (take i buf)], None)"
      using wait ne assms
      by (subst onData_loop.simps)
         (auto simp: Channel_HEADER_SIZE_def Let_def s1 s2)
    then show ?thesis by (simp add: loop_head_wait [OF mg wait])
  next
    case frame
    show ?thesis
      using frame ne assms
      by (subst onData_loop.simps)
         (simp add: Channel_HEADER_SIZE_def Let_def s1 s2 sub sub2 readUInt8_def
            loop_head_frame [OF mg frame] split: sum.split prod.split)
  qed
  then show ?thesis by (simp add: buf1_def)
qed

subsection \<open>The bytes of a frame\<close>

lemma header_bytes:
  "(copy [a, b, c, d] (replicate 9 z) 0)[4 := t, 5 := x0, 6 := x1, 7 := x2, 8 := x3]
     = [a, b, c, d, t, x0, x1, x2, x3]"
  by (simp add: copy_def numeral_eq_Suc)

lemma send_Some:
  assumes "length p < 2 ^ 32"
  shows "send ty (Some p) =
     Inr (Channel_MAGIC @ [ty, of_nat (length p), of_nat (length p div 2 ^ 8),
                           of_nat (length p div 2 ^ 16), of_nat (length p div 2 ^ 24)] @ p)"
proof -
  have "\<not> length p > 0xFFFFFFFF" using assms by simp
  then show ?thesis
    by (simp add: send_def writeUInt32LE_def writeUInt8_def Channel_MAGIC_def
        Channel_HEADER_SIZE_def Let_def header_bytes)
qed

lemma send_None: "send ty None = Inr (Channel_MAGIC @ [ty, 0, 0, 0, 0])"
  by (simp add: send_def writeUInt32LE_def writeUInt8_def Channel_MAGIC_def
        Channel_HEADER_SIZE_def Let_def header_bytes)

lemma take_9:
  "9 \<le> length buf \<Longrightarrow>
     take 4 buf @ [buf ! 4, buf ! 5, buf ! 6, buf ! 7, buf ! 8] = take 9 buf"
  by (simp add: list_eq_iff_nth_eq nth_append min_def
      less_Suc_eq numeral_eq_Suc nth_Cons')

lemma wire_frame:
  assumes "take 4 buf = Channel_MAGIC" and "9 + readUInt32LE buf 5 \<le> length buf"
  shows "wire (HandleFrame (buf ! 4) (take (readUInt32LE buf 5) (drop 9 buf)))
         = take (9 + readUInt32LE buf 5) buf"
proof -
  define n where "n = readUInt32LE buf 5"
  define pl where "pl = take n (drop 9 buf)"
  have len: "length pl = n" using assms(2) by (simp add: pl_def n_def)
  have lt: "length pl < 2 ^ 32" by (simp only: len n_def readUInt32LE_less)
  have ge: "9 \<le> length buf" using assms(2) by simp
  have "wire (HandleFrame (buf ! 4) pl)
        = take 4 buf @ [buf ! 4, buf ! 5, buf ! 6, buf ! 7, buf ! 8] @ pl"
    using written_readUInt32LE [of buf 5]
    by (simp add: send_Some [OF lt] len assms(1) n_def)
  also have "\<dots> = take 9 buf @ pl"
    using take_9 [OF ge] by simp
  also have "\<dots> = take (9 + n) buf"
    by (simp add: take_add pl_def)
  finally show ?thesis by (simp add: pl_def n_def)
qed

lemma loop_frame_at_head:
  assumes "send ty (Some p) = Inr w"
  shows "onData_loop parse (w @ rest) =
     (case handleFrame parse ty p of
        Inl e \<Rightarrow> (rest, [HandleFrame ty p], Some e)
      | Inr cb \<Rightarrow>
          (case onData_loop parse rest of
             (b, calls, err) \<Rightarrow> (b, HandleFrame ty p # calls, err)))"
proof -
  have lt: "length p < 2 ^ 32"
    using assms by (auto simp: send_def writeUInt32LE_def Let_def split: if_splits)
  define hdr where "hdr = [ty, of_nat (length p), of_nat (length p div 2 ^ 8),
                           of_nat (length p div 2 ^ 16), of_nat (length p div 2 ^ 24) :: byte]"
  have w: "w = Channel_MAGIC @ hdr @ p"
    using assms by (simp add: send_Some [OF lt] hdr_def)
  define buf where "buf = w @ rest"
  have mg: "take 4 buf = Channel_MAGIC" by (simp add: buf_def w length_MAGIC)
  have n: "readUInt32LE buf 5 = length p"
    unfolding buf_def w hdr_def Channel_MAGIC_def
    using readUInt32LE_written [OF lt] by simp
  have full: "9 + readUInt32LE buf 5 \<le> length buf"
    unfolding n by (simp add: buf_def w length_MAGIC hdr_def)
  have t: "buf ! 4 = ty" by (simp add: buf_def w Channel_MAGIC_def hdr_def)
  have lh: "length hdr = 5" by (simp add: hdr_def)
  have pl: "take (length p) (drop 9 buf) = p"
    by (simp add: buf_def w length_MAGIC lh)
  have rs: "drop (9 + length p) buf = rest"
    by (simp add: buf_def w length_MAGIC lh)
  show ?thesis
    using loop_head_frame [OF mg full, of parse]
    unfolding n t pl rs by (simp add: buf_def)
qed

lemma loop_incomplete:
  assumes "take 4 buf = Channel_MAGIC" and "9 \<le> length buf"
    and "length buf + length chunk < 9 + readUInt32LE buf 5"
  shows "onData_loop parse (buf @ chunk) = (buf @ chunk, [], None)"
proof -
  have mg: "take 4 (buf @ chunk) = Channel_MAGIC" using assms(1,2) by simp
  have n: "readUInt32LE (buf @ chunk) 5 = readUInt32LE buf 5"
    using assms(2) by (simp add: readUInt32LE_def nth_append)
  show ?thesis
    by (rule loop_head_wait [OF mg]) (use assms(3) in \<open>simp add: n\<close>)
qed

subsection \<open>Induction along the loop\<close>

lemma loop_cases [case_names empty no_magic skip wait frame]:
  assumes "P []"
    and "\<And>buf. buf \<noteq> [] \<Longrightarrow> indexOf buf Channel_MAGIC = None \<Longrightarrow> P buf"
    and "\<And>buf i. indexOf buf Channel_MAGIC = Some i \<Longrightarrow> 0 < i \<Longrightarrow> P (drop i buf) \<Longrightarrow> P buf"
    and "\<And>buf. take 4 buf = Channel_MAGIC \<Longrightarrow>
           length buf < 9 \<or> length buf < 9 + readUInt32LE buf 5 \<Longrightarrow> P buf"
    and "\<And>buf. take 4 buf = Channel_MAGIC \<Longrightarrow> 9 + readUInt32LE buf 5 \<le> length buf \<Longrightarrow>
           P (drop (9 + readUInt32LE buf 5) buf) \<Longrightarrow> P buf"
  shows "P buf"
proof (induction buf rule: length_induct)
  case (1 buf)
  show ?case
  proof (cases "buf = []")
    case True
    then show ?thesis using assms(1) by simp
  next
    case ne: False
    show ?thesis
    proof (cases "indexOf buf Channel_MAGIC")
      case None
      then show ?thesis using assms(2) ne by simp
    next
      case (Some i)
      note idx = indexOf_MAGIC_Some [OF Some]
      show ?thesis
      proof (cases "0 < i")
        case True
        have "length (drop i buf) < length buf" using True idx(1) by simp
        then have "P (drop i buf)" using 1 by blast
        then show ?thesis using assms(3) [OF Some True] by simp
      next
        case False
        then have mg: "take 4 buf = Channel_MAGIC" using idx(2) by simp
        show ?thesis
        proof (cases "9 + readUInt32LE buf 5 \<le> length buf")
          case True
          then have "length (drop (9 + readUInt32LE buf 5) buf) < length buf" by simp
          then have "P (drop (9 + readUInt32LE buf 5) buf)" using 1 by blast
          then show ?thesis using assms(5) [OF mg True] by simp
        next
          case False
          then have "length buf < 9 \<or> length buf < 9 + readUInt32LE buf 5" by linarith
          then show ?thesis using assms(4) [OF mg] by simp
        qed
      qed
    qed
  qed
qed

lemma loop_conservation:
  "concat (map wire (fst (snd (onData_loop parse buf)))) @ fst (onData_loop parse buf) = buf"
proof (induction buf rule: loop_cases)
  case empty
  show ?case by (simp add: loop_empty)
next
  case (no_magic buf)
  then show ?case by (simp add: loop_no_magic)
next
  case (skip buf i)
  obtain b calls err where r: "onData_loop parse (drop i buf) = (b, calls, err)"
    by (cases "onData_loop parse (drop i buf)") auto
  from skip(3) have "concat (map wire calls) @ b = drop i buf" by (simp add: r)
  then have "take i buf @ concat (map wire calls) @ b = buf" by simp
  then show ?case by (simp add: loop_skip [OF skip(1,2)] r)
next
  case (wait buf)
  then show ?case by (simp add: loop_head_wait)
next
  case (frame buf)
  have "take (9 + readUInt32LE buf 5) buf @ drop (9 + readUInt32LE buf 5) buf = buf"
    by (rule append_take_drop_id)
  with frame(3) show ?case
    by (auto simp add: loop_head_frame [OF frame(1,2)] wire_frame [OF frame(1,2)]
        simp del: append_take_drop_id wire.simps
        split: prod.splits sum.splits)
qed

lemma loop_frame_sizes:
  "HandleFrame ty pl \<in> set (fst (snd (onData_loop parse buf))) \<Longrightarrow>
     length (wire (HandleFrame ty pl)) = 9 + length pl"
proof (induction buf rule: loop_cases)
  case empty
  then show ?case by (simp add: loop_empty)
next
  case (no_magic buf)
  then show ?case by (simp add: loop_no_magic)
next
  case (skip buf i)
  then show ?case
    by (cases "onData_loop parse (drop i buf)")
       (auto simp add: loop_skip [OF skip(1,2)] simp del: wire.simps)
next
  case (wait buf)
  then show ?case by (simp add: loop_head_wait)
next
  case (frame buf)
  have w: "length (wire (HandleFrame (buf ! 4) (take (readUInt32LE buf 5) (drop 9 buf))))
           = 9 + length (take (readUInt32LE buf 5) (drop 9 buf))"
    using frame(2) by (simp add: wire_frame [OF frame(1,2)] del: wire.simps)
  from frame(3,4) w show ?case
    by (auto simp add: loop_head_frame [OF frame(1,2)]
        simp del: wire.simps split: prod.splits sum.splits)
qed

lemma loop_invariant:
  "(snd (snd (onData_loop parse buf)) = None \<longrightarrow>
      fst (onData_loop parse buf) = []
      \<or> take 4 (fst (onData_loop parse buf)) = Channel_MAGIC
        \<and> (length (fst (onData_loop parse buf)) < 9
             \<or> length (fst (onData_loop parse buf))
                 < 9 + readUInt32LE (fst (onData_loop parse buf)) 5))
   \<and> OnPassthrough [] \<notin> set (fst (snd (onData_loop parse buf)))"
proof (induction buf rule: loop_cases)
  case empty
  show ?case by (simp add: loop_empty)
next
  case (no_magic buf)
  then show ?case by (simp add: loop_no_magic)
next
  case (skip buf i)
  from indexOf_MAGIC_Some(1) [OF skip(1)] skip(2) have "take i buf \<noteq> []" by auto
  with skip(3) show ?case
    by (cases "onData_loop parse (drop i buf)") (auto simp add: loop_skip [OF skip(1,2)])
next
  case (wait buf)
  then show ?case by (simp add: loop_head_wait)
next
  case (frame buf)
  then show ?case
    by (auto simp add: loop_head_frame [OF frame(1,2)] split: prod.splits sum.splits)
qed

text \<open>
  A call that ends with an incomplete frame in the buffer composes with the next one:
  the two calls do what one call on both chunks does.
\<close>

lemma loop_append:
  assumes "onData_loop parse b = (r, calls1, None)" and "r \<noteq> []"
  shows "onData_loop parse (b @ c) =
     (case onData_loop parse (r @ c) of (r', calls2, err) \<Rightarrow> (r', calls1 @ calls2, err))"
  using assms
proof (induction b arbitrary: calls1 rule: loop_cases)
  case empty
  then show ?case by (simp add: loop_empty)
next
  case (no_magic buf)
  then show ?case by (simp add: loop_no_magic)
next
  case (skip buf i)
  obtain calls' where l: "onData_loop parse (drop i buf) = (r, calls', None)"
    and c1: "calls1 = OnPassthrough (take i buf) # calls'"
    using skip.prems(1) by (auto simp: loop_skip [OF skip.hyps] split: prod.splits)
  have le: "i \<le> length buf" using indexOf_MAGIC_Some(1) [OF skip.hyps(1)] by simp
  have "onData_loop parse (buf @ c) =
     (case onData_loop parse (drop i buf @ c) of
        (b', calls, err) \<Rightarrow> (b', OnPassthrough (take i buf) # calls, err))"
    using loop_skip [OF indexOf_append [OF skip.hyps(1)] skip.hyps(2), where parse = parse and c1 = c] le by simp
  then show ?case
    by (simp add: skip.IH [OF l skip.prems(2)] c1 split: prod.splits)
next
  case (wait buf)
  then show ?case by (simp add: loop_head_wait split: prod.splits)
next
  case (frame buf)
  define n where "n = readUInt32LE buf 5"
  have full: "9 + n \<le> length buf" using frame.hyps(2) by (simp add: n_def)
  have mg: "take 4 (buf @ c) = Channel_MAGIC" using frame.hyps(1) full by simp
  have n': "readUInt32LE (buf @ c) 5 = n"
    using full by (simp add: readUInt32LE_def nth_append n_def)
  have full': "9 + readUInt32LE (buf @ c) 5 \<le> length (buf @ c)" using full by (simp add: n')
  have t: "(buf @ c) ! 4 = buf ! 4" using full by (simp add: nth_append)
  have pl: "take n (drop 9 (buf @ c)) = take n (drop 9 buf)" using full by simp
  have rs: "drop (9 + n) (buf @ c) = drop (9 + n) buf @ c" using full by simp
  obtain cb calls' where h: "handleFrame parse (buf ! 4) (take n (drop 9 buf)) = Inr cb"
    and l: "onData_loop parse (drop (9 + n) buf) = (r, calls', None)"
    and c1: "calls1 = HandleFrame (buf ! 4) (take n (drop 9 buf)) # calls'"
    using frame.prems(1)
    by (auto simp: loop_head_frame [OF frame.hyps(1,2)] n_def split: prod.splits sum.splits)
  have step: "onData_loop parse (buf @ c) =
     (case onData_loop parse (drop (9 + n) buf @ c) of
        (b', calls, err) \<Rightarrow> (b', HandleFrame (buf ! 4) (take n (drop 9 buf)) # calls, err))"
    using loop_head_frame [OF mg full', of parse] unfolding n' t pl rs by (simp add: h)
  show ?case
    unfolding step frame.IH [folded n_def, OF l frame.prems(2)] c1
    by (simp split: prod.splits)
qed

subsection \<open>Evaluation on concrete chunks\<close>

lemmas channel_eval = onData_def new_Channel_def onData_loop.simps Channel_MAGIC_def
  Channel_HEADER_SIZE_def subarray_def readUInt8_def readUInt32LE_def handleFrame_def
  MessageType_OPEN_def MessageType_CLOSE_def MessageType_CALL_def MessageType_DATA_def Let_def

subsection \<open>A magic split across two chunks\<close>

text \<open>
  Claim C1 asks that an accumulator which holds no full magic but ends in one to three
  bytes of it keeps that tail, so that \<^verbatim>\<open>WIP\<close> followed by \<^verbatim>\<open>C\<close>, the rest of the header
  and the payload gives one frame and no passthrough byte of the magic. The loop does
  not keep the tail: without a full magic it hands the whole buffer to
  \<^verbatim>\<open>onPassthrough\<close> and clears it. Fed \<^verbatim>\<open>WIP\<close> and then the remainder of a DATA frame
  with payload \<^verbatim>\<open>x\<close>, the channel emits both chunks as passthrough runs and no frame.
\<close>

theorem split_magic_is_flushed:
  "feed Some new_Channel [[0x57, 0x49, 0x50], [0x43, 0x03, 0x01, 0, 0, 0, 0x78]]
   = (new_Channel,
      [OnPassthrough [0x57, 0x49, 0x50], OnPassthrough [0x43, 0x03, 0x01, 0, 0, 0, 0x78]],
      None)"
  by (simp add: channel_eval)

subsection \<open>Chunking\<close>

text \<open>
  Claim C3 asks that any partition of a stream into chunks gives the same passthrough
  runs and frames as one call, adjacent passthrough runs merged. One passthrough byte
  and a DATA frame with payload \<^verbatim>\<open>x\<close>, fed in one call, give the run and the frame; fed
  byte by byte they give eleven passthrough runs, which merge into one run of the whole
  stream, and no frame.
\<close>

theorem chunking_changes_delivery:
  "merge_passthrough (fst (snd (feed Some new_Channel
       [[0x61, 0x57, 0x49, 0x50, 0x43, 0x03, 0x01, 0, 0, 0, 0x78]])))
     = [OnPassthrough [0x61], HandleFrame 0x03 [0x78]]
   \<and> merge_passthrough (fst (snd (feed Some new_Channel
       [[0x61], [0x57], [0x49], [0x50], [0x43], [0x03], [0x01], [0], [0], [0], [0x78]])))
     = [OnPassthrough [0x61, 0x57, 0x49, 0x50, 0x43, 0x03, 0x01, 0, 0, 0, 0x78]]"
  by (simp add: channel_eval)

text \<open>
  A chunk boundary behind a frame's magic is harmless: when the first call leaves a
  non-empty buffer (it then starts with the magic of a frame that is not complete yet),
  feeding the two chunks gives what feeding them as one chunk gives.
\<close>

lemma split_inside_frame:
  assumes "onData parse ch c1 = (ch1, calls1, None)" and "buffer ch1 \<noteq> []"
  shows "feed parse ch [c1, c2] = onData parse ch (c1 @ c2)"
proof -
  obtain r where l: "onData_loop parse (buffer ch @ c1) = (r, calls1, None)"
    and c: "ch1 = ch\<lparr>buffer := r\<rparr>"
    using assms(1) by (auto simp: onData_def split: prod.splits)
  have r: "r \<noteq> []" using assms(2) by (simp add: c)
  obtain r' calls2 err where l2: "onData_loop parse (r @ c2) = (r', calls2, err)"
    by (cases "onData_loop parse (r @ c2)") auto
  have one: "onData parse ch (c1 @ c2) = (ch\<lparr>buffer := r'\<rparr>, calls1 @ calls2, err)"
    using loop_append [OF l r, of c2] by (simp add: onData_def l2)
  have two: "onData parse ch1 c2 = (ch\<lparr>buffer := r'\<rparr>, calls2, err)"
    by (simp add: onData_def c l2)
  show ?thesis
    by (cases err) (simp_all add: assms(1) one two)
qed

subsection \<open>Resynchronisation\<close>

text \<open>
  With the magic at offset 0 there is nothing to pass through, and the loop emits no
  run (\<^verbatim>\<open>if (idx > 0)\<close>).
\<close>

lemma resync_at_offset_zero:
  "onData Some new_Channel [0x57, 0x49, 0x50, 0x43, 0x03, 0x01, 0, 0, 0, 0x78]
     = (new_Channel, [HandleFrame 0x03 [0x78]], None)"
  by (simp add: channel_eval)

text \<open>
  Claim C6. For every byte sequence \<^verbatim>\<open>garbage\<close> before the magic (so the magic is found
  at an offset above 0) that contains no occurrence of the magic, \<^verbatim>\<open>garbage\<close> followed
  by the DATA frame with payload \<^verbatim>\<open>x\<close>, fed in one call to a new channel, yields exactly
  the passthrough run \<^verbatim>\<open>garbage\<close> and then the one frame, which \<^verbatim>\<open>handleFrame\<close> gives to
  \<^verbatim>\<open>onDataMessage\<close> with payload \<^verbatim>\<open>x\<close>; nothing stays buffered. That \<^verbatim>\<open>indexOf\<close> finds
  nothing says that no offset of \<^verbatim>\<open>garbage\<close> holds the four bytes
  (\<open>indexOf_None_iff\<close>).
\<close>

theorem resync_after_garbage:
  assumes "garbage \<noteq> []" and "indexOf garbage Channel_MAGIC = None"
  shows "onData parse new_Channel (garbage @ [0x57, 0x49, 0x50, 0x43, 0x03, 0x01, 0, 0, 0, 0x78])
           = (new_Channel, [OnPassthrough garbage, HandleFrame MessageType_DATA [0x78]], None)
   \<and> handleFrame parse MessageType_DATA [0x78] = Inr (OnDataMessage [0x78])"
proof -
  let ?frame = "[0x57, 0x49, 0x50, 0x43, 0x03, 0x01, 0, 0, 0, 0x78] :: bytes"
  have f: "?frame = Channel_MAGIC @ [0x03, 0x01, 0, 0, 0, 0x78]"
    by (simp add: Channel_MAGIC_def)
  have idx: "indexOf (garbage @ ?frame) Channel_MAGIC = Some (length garbage)"
    unfolding f by (rule indexOf_None_append_MAGIC [OF assms(2)])
  have pos: "0 < length garbage" using assms(1) by simp
  have fr: "onData_loop parse ?frame = ([], [HandleFrame MessageType_DATA [0x78]], None)"
    by (simp add: channel_eval)
  have "onData_loop parse (garbage @ ?frame)
        = ([], [OnPassthrough garbage, HandleFrame MessageType_DATA [0x78]], None)"
    using loop_skip [OF idx pos, of parse] by (simp add: fr)
  then show ?thesis
    by (simp add: onData_def new_Channel_def handleFrame_def MessageType_DATA_def
        MessageType_OPEN_def MessageType_CLOSE_def MessageType_CALL_def)
qed

theorem resync_after_garbage_witness:
  "onData Some new_Channel ([0x68, 0x69, 0x0A] @ [0x57, 0x49, 0x50, 0x43, 0x03, 0x01, 0, 0, 0, 0x78])
     = (new_Channel, [OnPassthrough [0x68, 0x69, 0x0A], HandleFrame MessageType_DATA [0x78]], None)
   \<and> handleFrame Some MessageType_DATA [0x78] = Inr (OnDataMessage [0x78])"
proof -
  have ne: "[0x68, 0x69, 0x0A] \<noteq> ([] :: bytes)" by simp
  have no: "indexOf [0x68, 0x69, 0x0A] Channel_MAGIC = None"
    by (simp add: Channel_MAGIC_def)
  show ?thesis
    by (rule resync_after_garbage [OF ne no])
qed

subsection \<open>What a frame consumes\<close>

text \<open>
  Claim C7. Every \<^verbatim>\<open>onData\<close> call splits the accumulator and the chunk, in order, into
  the data of the calls it makes and the buffer it leaves; each frame it hands to
  \<^verbatim>\<open>handleFrame\<close> with a payload of \<^verbatim>\<open>N\<close> bytes accounts for exactly \<^verbatim>\<open>9 + N\<close> bytes.
  And once a buffer starts with the header and the payload of a frame, that frame is
  extracted and the loop goes on with exactly the bytes behind it, whatever the payload
  holds: the payload is not searched for the magic.
\<close>

theorem frame_consumes_header_and_payload:
  "(onData parse ch chunk = (ch', calls, err) \<longrightarrow>
      concat (map wire calls) @ buffer ch' = buffer ch @ chunk
      \<and> (\<forall>ty pl. HandleFrame ty pl \<in> set calls \<longrightarrow>
            length (wire (HandleFrame ty pl)) = 9 + length pl))
   \<and> (send ty (Some p) = Inr w \<and> buffer ch @ chunk = w @ rest \<longrightarrow>
        onData parse ch chunk =
          (case handleFrame parse ty p of
             Inl e \<Rightarrow> (ch\<lparr>buffer := rest\<rparr>, [HandleFrame ty p], Some e)
           | Inr cb \<Rightarrow>
               (case onData parse (ch\<lparr>buffer := rest\<rparr>) [] of
                  (c, calls2, e) \<Rightarrow> (c, HandleFrame ty p # calls2, e))))"
proof (intro conjI impI allI)
  assume r: "onData parse ch chunk = (ch', calls, err)"
  obtain b where l: "onData_loop parse (buffer ch @ chunk) = (b, calls, err)"
    and c: "ch' = ch\<lparr>buffer := b\<rparr>"
    using r by (auto simp: onData_def split: prod.splits)
  show "concat (map wire calls) @ buffer ch' = buffer ch @ chunk"
    using loop_conservation [of parse "buffer ch @ chunk"] by (simp add: l c)
  fix ty pl
  assume "HandleFrame ty pl \<in> set calls"
  then show "length (wire (HandleFrame ty pl)) = 9 + length pl"
    using loop_frame_sizes [of ty pl parse "buffer ch @ chunk"] by (simp add: l)
next
  assume a: "send ty (Some p) = Inr w \<and> buffer ch @ chunk = w @ rest"
  then have s: "send ty (Some p) = Inr w" and e: "buffer ch @ chunk = w @ rest" by simp_all
  show "onData parse ch chunk =
          (case handleFrame parse ty p of
             Inl e \<Rightarrow> (ch\<lparr>buffer := rest\<rparr>, [HandleFrame ty p], Some e)
           | Inr cb \<Rightarrow>
               (case onData parse (ch\<lparr>buffer := rest\<rparr>) [] of
                  (c, calls2, e) \<Rightarrow> (c, HandleFrame ty p # calls2, e)))"
    by (simp add: onData_def e loop_frame_at_head [OF s] split: sum.splits prod.splits)
qed

theorem frame_consumes_header_and_payload_witness:
  "concat (map wire [HandleFrame 0x03 [0x57, 0x49, 0x50, 0x43], OnPassthrough [0x09]])
     = [0x57, 0x49, 0x50, 0x43, 0x03, 0x04, 0, 0, 0, 0x57, 0x49, 0x50, 0x43, 0x09]
   \<and> length (wire (HandleFrame 0x03 [0x57, 0x49, 0x50, 0x43])) = 13
   \<and> onData Some new_Channel [0x57, 0x49, 0x50, 0x43, 0x03, 0x04, 0, 0, 0,
                                0x57, 0x49, 0x50, 0x43, 0x09]
       = (new_Channel, [HandleFrame 0x03 [0x57, 0x49, 0x50, 0x43], OnPassthrough [0x09]], None)"
proof -
  let ?chunk = "[0x57, 0x49, 0x50, 0x43, 0x03, 0x04, 0, 0, 0, 0x57, 0x49, 0x50, 0x43, 0x09] :: bytes"
  let ?calls = "[HandleFrame 0x03 [0x57, 0x49, 0x50, 0x43], OnPassthrough [0x09]]"
  have r: "onData Some new_Channel ?chunk = (new_Channel, ?calls, None)"
    by (simp add: channel_eval)
  have s: "send 0x03 (Some [0x57, 0x49, 0x50, 0x43])
           = Inr [0x57, 0x49, 0x50, 0x43, 0x03, 0x04, 0, 0, 0, 0x57, 0x49, 0x50, 0x43]"
    by (simp add: send_Some Channel_MAGIC_def)
  from frame_consumes_header_and_payload
    [where parse = Some and ch = new_Channel and chunk = ?chunk and ch' = new_Channel
       and calls = ?calls and err = None and ty = "0x03" and p = "[0x57, 0x49, 0x50, 0x43]"
       and w = "[0x57, 0x49, 0x50, 0x43, 0x03, 0x04, 0, 0, 0, 0x57, 0x49, 0x50, 0x43]"
       and rest = "[0x09]"]
  show ?thesis
    using r s by (simp add: new_Channel_def del: wire.simps)
qed

subsection \<open>Reserved message types\<close>

text \<open>
  \<^verbatim>\<open>handleFrame\<close> throws for a type byte outside the four named values: the frame with
  type 4 and no payload reaches no callback, and \<^verbatim>\<open>onData\<close> ends with the error.
\<close>

lemma reserved_not_named:
  "(4 :: byte) \<le> ty \<Longrightarrow> handleFrame parse ty p = Inl (UnknownFrameType ty)"
  by (auto simp: handleFrame_def MessageType_OPEN_def MessageType_CLOSE_def
      MessageType_CALL_def MessageType_DATA_def word_le_nat_alt)

theorem reserved_type_counterexample:
  "send 0x04 None = Inr [0x57, 0x49, 0x50, 0x43, 0x04, 0, 0, 0, 0]
   \<and> handleFrame Some 0x04 [] = Inl (UnknownFrameType 0x04)
   \<and> onData Some new_Channel [0x57, 0x49, 0x50, 0x43, 0x04, 0, 0, 0, 0]
       = (new_Channel, [HandleFrame 0x04 []], Some (UnknownFrameType 0x04))"
  by (simp add: send_None channel_eval)

text \<open>
  Claim C2, amended. For every structurally valid frame whose type byte lies in the
  reserved range \<^verbatim>\<open>0x04-0xFF\<close>, the channel takes the frame's bytes from the accumulator
  and \<^verbatim>\<open>handleFrame\<close> rejects it with \<^verbatim>\<open>Unknown frame type\<close>: no callback receives the
  frame, \<^verbatim>\<open>onData\<close> ends with that error, and the bytes after the frame stay buffered.
\<close>

theorem reserved_type_is_rejected:
  assumes "0x04 \<le> ty" and "send ty (Some p) = Inr w" and "buffer ch @ chunk = w @ rest"
  shows "handleFrame parse ty p = Inl (UnknownFrameType ty)
   \<and> onData parse ch chunk
       = (ch\<lparr>buffer := rest\<rparr>, [HandleFrame ty p], Some (UnknownFrameType ty))"
proof
  show h: "handleFrame parse ty p = Inl (UnknownFrameType ty)"
    by (rule reserved_not_named [OF assms(1)])
  have "onData_loop parse (w @ rest) = (rest, [HandleFrame ty p], Some (UnknownFrameType ty))"
    using loop_frame_at_head [OF assms(2), of parse rest] by (simp add: h)
  then show "onData parse ch chunk
       = (ch\<lparr>buffer := rest\<rparr>, [HandleFrame ty p], Some (UnknownFrameType ty))"
    by (simp add: onData_def assms(3))
qed

theorem reserved_type_is_rejected_witness:
  "handleFrame Some 0xFF [0x68, 0x69] = Inl (UnknownFrameType 0xFF)
   \<and> onData Some new_Channel [0x57, 0x49, 0x50, 0x43, 0xFF, 2, 0, 0, 0, 0x68, 0x69, 0x0A]
       = (\<lparr>buffer = [0x0A]\<rparr>, [HandleFrame 0xFF [0x68, 0x69]], Some (UnknownFrameType 0xFF))"
proof -
  have s: "send 0xFF (Some [0x68, 0x69]) = Inr [0x57, 0x49, 0x50, 0x43, 0xFF, 2, 0, 0, 0, 0x68, 0x69]"
    by (simp add: send_Some Channel_MAGIC_def)
  have le: "(0x04 :: byte) \<le> 0xFF" by simp
  have b: "buffer new_Channel @ [0x57, 0x49, 0x50, 0x43, 0xFF, 2, 0, 0, 0, 0x68, 0x69, 0x0A]
           = [0x57, 0x49, 0x50, 0x43, 0xFF, 2, 0, 0, 0, 0x68, 0x69] @ [0x0A]"
    by (simp add: new_Channel_def)
  show ?thesis
    using reserved_type_is_rejected [OF le s b, of Some] by (simp add: new_Channel_def)
qed

subsection \<open>Declared lengths that never complete\<close>

text \<open>
  The channel has no bound on what it buffers and no error for it. A header declaring
  \<^verbatim>\<open>0xFFFFFFFF\<close> payload bytes followed by a mebibyte of data: nothing is raised, nothing
  is emitted, everything is kept.
\<close>

theorem oversized_length_counterexample:
  "feed Some new_Channel
     [[0x57, 0x49, 0x50, 0x43, 0x03, 0xFF, 0xFF, 0xFF, 0xFF], replicate 1048576 0x41]
   = (\<lparr>buffer = [0x57, 0x49, 0x50, 0x43, 0x03, 0xFF, 0xFF, 0xFF, 0xFF] @ replicate 1048576 0x41\<rparr>,
      [], None)"
proof -
  let ?h = "[0x57, 0x49, 0x50, 0x43, 0x03, 0xFF, 0xFF, 0xFF, 0xFF] :: bytes"
  have n: "readUInt32LE ?h 5 = 4294967295" by (simp add: readUInt32LE_def)
  have a: "onData Some new_Channel ?h = (\<lparr>buffer = ?h\<rparr>, [], None)"
    using loop_incomplete [of ?h "[]" Some]
    by (simp add: onData_def new_Channel_def n Channel_MAGIC_def)
  have b: "onData Some \<lparr>buffer = ?h\<rparr> (replicate 1048576 0x41)
           = (\<lparr>buffer = ?h @ replicate 1048576 0x41\<rparr>, [], None)"
    using loop_incomplete [of ?h "replicate 1048576 0x41" Some]
    by (simp add: onData_def n Channel_MAGIC_def)
  show ?thesis by (simp add: a b)
qed

text \<open>
  Claim C8, amended. When the accumulator together with the new chunk starts with a
  header that declares a payload length \<^verbatim>\<open>L\<close> (such as \<^verbatim>\<open>0xFFFFFFFF\<close>) and holds fewer
  than \<^verbatim>\<open>9 + L\<close> bytes, \<^verbatim>\<open>onData\<close> raises no error and emits nothing: it keeps all of
  it buffered, whatever the size. There is no maximum buffered-frame size and no
  \<^verbatim>\<open>OversizedFrame\<close> condition.
\<close>

theorem incomplete_frame_is_buffered:
  assumes "take 4 (buffer ch @ chunk) = Channel_MAGIC"
    and "9 \<le> length (buffer ch @ chunk)"
    and "length (buffer ch @ chunk) < 9 + readUInt32LE (buffer ch @ chunk) 5"
  shows "onData parse ch chunk = (ch\<lparr>buffer := buffer ch @ chunk\<rparr>, [], None)"
proof -
  have "onData_loop parse (buffer ch @ chunk) = (buffer ch @ chunk, [], None)"
    using assms(1,3) by (simp add: loop_head_wait)
  then show ?thesis by (simp add: onData_def)
qed

theorem incomplete_frame_is_buffered_witness:
  "onData Some \<lparr>buffer = [0x57, 0x49, 0x50, 0x43, 0x03, 0x00, 0x00, 0x01, 0x00]\<rparr> (replicate 65535 0x41)
   = (\<lparr>buffer = [0x57, 0x49, 0x50, 0x43, 0x03, 0x00, 0x00, 0x01, 0x00] @ replicate 65535 0x41\<rparr>,
      [], None)"
  using incomplete_frame_is_buffered
    [of "\<lparr>buffer = [0x57, 0x49, 0x50, 0x43, 0x03, 0x00, 0x00, 0x01, 0x00]\<rparr>"
        "replicate 65535 0x41" Some]
  by (simp add: Channel_MAGIC_def readUInt32LE_def)

subsection \<open>The buffer between calls\<close>

text \<open>
  Claim C10. After an \<^verbatim>\<open>onData\<close> call that returns (no exception from
  \<^verbatim>\<open>handleFrame\<close>), the accumulator is empty or starts with the four bytes of the magic
  and holds an incomplete frame: fewer than the 9 bytes of a header, or fewer than the
  \<^verbatim>\<open>9 + length\<close> bytes its header declares. So no run of non-frame bytes, no partial
  magic of one to three bytes and no complete frame stays buffered. Every passthrough
  run the call emits is non-empty.
\<close>

theorem onData_leaves_empty_or_magic:
  assumes "onData parse ch chunk = (ch', calls, err)"
  shows "(err = None \<longrightarrow>
            buffer ch' = []
            \<or> take 4 (buffer ch') = Channel_MAGIC
              \<and> (length (buffer ch') < 9
                   \<or> length (buffer ch') < 9 + readUInt32LE (buffer ch') 5))
   \<and> (\<forall>d. OnPassthrough d \<in> set calls \<longrightarrow> d \<noteq> [])"
proof -
  obtain b where l: "onData_loop parse (buffer ch @ chunk) = (b, calls, err)"
    and c: "ch' = ch\<lparr>buffer := b\<rparr>"
    using assms by (auto simp: onData_def split: prod.splits)
  from loop_invariant [of parse "buffer ch @ chunk"] show ?thesis
    by (auto simp: l c)
qed

theorem onData_leaves_empty_or_magic_witness:
  "take 4 (buffer \<lparr>buffer = [0x57, 0x49, 0x50, 0x43, 0x03]\<rparr>) = Channel_MAGIC
   \<and> length (buffer \<lparr>buffer = [0x57, 0x49, 0x50, 0x43, 0x03]\<rparr>) < 9
   \<and> OnPassthrough [] \<notin> set [OnPassthrough [0x61, 0x57, 0x49]]"
proof -
  have r: "onData Some \<lparr>buffer = [0x61, 0x57, 0x49]\<rparr> [0x57, 0x49, 0x50, 0x43, 0x03]
           = (\<lparr>buffer = [0x57, 0x49, 0x50, 0x43, 0x03]\<rparr>, [OnPassthrough [0x61, 0x57, 0x49]], None)"
    by (simp add: channel_eval)
  from onData_leaves_empty_or_magic [OF r] show ?thesis by auto
qed

end
